theory Spec2Isabelle
  imports Main "HOL-Library.Word" "HOL-Library.Multiset"
begin

section \<open>Errors and the request object\<close>

text \<open>
  A Go \<open>error\<close> value is either \<open>nil\<close> or an error; it is modelled as
  \<open>error option\<close> with \<open>None\<close> for \<open>nil\<close>. \<open>errors.Wrap(err, msg)\<close> of
  \<open>github.com/pkg/errors\<close> returns \<open>nil\<close> for a \<open>nil\<close> argument and an error
  that annotates \<open>err\<close> with \<open>msg\<close> otherwise.
\<close>

datatype error = Error string | Wrapped error string

definition Wrap :: "error option \<Rightarrow> string \<Rightarrow> error option" where
  "Wrap e msg = (case e of None \<Rightarrow> None | Some x \<Rightarrow> Some (Wrapped x msg))"

text \<open>
  \<open>type BasicRequest struct { err error; url string }\<close>. The methods take a
  pointer receiver and mutate the struct in place; here they return the updated
  record. They are stated on the record scheme, so that they apply unchanged to a
  type that embeds \<open>BasicRequest\<close>.
\<close>

record BasicRequest =
  err :: "error option"
  url :: string

definition NewBasicRequest :: "string \<Rightarrow> BasicRequest" where
  "NewBasicRequest u = \<lparr> err = None, url = u \<rparr>"

definition Err :: "'a BasicRequest_scheme \<Rightarrow> error option" where
  "Err r = err r"

definition SetErr :: "'a BasicRequest_scheme \<Rightarrow> error option \<Rightarrow> 'a BasicRequest_scheme" where
  "SetErr r e = (if err r = None \<or> e \<noteq> None then r\<lparr> err := e \<rparr> else r)"

text \<open>
  The argument of the last call, in a sequence of \<open>SetErr\<close> calls, that was not
  \<open>nil\<close>; \<open>nil\<close> when there is none. This is the value the specification
  prescribes for the latch, written independently of \<open>SetErr\<close>.
\<close>

definition last_non_nil :: "error option list \<Rightarrow> error option" where
  "last_non_nil es =
     (let given = filter (\<lambda>e. e \<noteq> None) es in if given = [] then None else last given)"

section \<open>The collaborators and one fetch-decode cycle\<close>

text \<open>
  The worker operates on the interface \<open>JSONRequest\<close> (\<open>Request\<close>,
  \<open>Data\<close>, \<open>SetErr\<close>, \<open>Err\<close>, \<open>Done\<close>). \<open>BasicRequest\<close> supplies
  \<open>Request\<close>, \<open>SetErr\<close> and \<open>Err\<close>; a concrete task embeds it and adds the
  decode target returned by \<open>Data\<close> and the completion signal \<open>Done\<close>. The
  task modelled here is such a type: \<open>data\<close> is the value behind the pointer that
  \<open>Data()\<close> returns, and \<open>done_calls\<close> counts the invocations of \<open>Done()\<close>.
\<close>

record 'd JSONRequest = BasicRequest +
  data :: 'd
  done_calls :: nat

definition Done :: "'d JSONRequest \<Rightarrow> 'd JSONRequest" where
  "Done r = r\<lparr> done_calls := done_calls r + 1 \<rparr>"

text \<open>
  The packages \<open>net/http\<close> and \<open>encoding/json\<close> are not part of the
  repository. What they return is a parameter of the model:
  \<^item> \<open>new_request m u\<close> is \<open>http.NewRequest(m, u, nil)\<close>, a pair of a request
    pointer (\<open>None\<close> for \<open>nil\<close>) and an error;
  \<^item> \<open>client_do rq\<close> is \<open>http.DefaultClient.Do(rq)\<close>: an error, or a response;
  \<^item> \<open>json_decode b d\<close> is \<open>json.NewDecoder(b).Decode(p)\<close> where \<open>d\<close> is the
    value behind \<open>p\<close>: the value left behind \<open>p\<close>, and an error;
  \<^item> \<open>body_close resp\<close> is \<open>resp.Body.Close()\<close>.
  Every collaborator returns; a call that does not return to the worker (a panic
  inside the library, a fetch that hangs) is outside this model.
\<close>

record request =
  Method :: string
  URL :: string

record response =
  Body :: string

record 'd env =
  new_request :: "string \<Rightarrow> string \<Rightarrow> request option \<times> error option"
  client_do :: "request option \<Rightarrow> error + response"
  json_decode :: "string \<Rightarrow> 'd \<Rightarrow> 'd \<times> error option"
  body_close :: "response \<Rightarrow> error option"

text \<open>
  \<open>BasicRequest.Request\<close>: the request pointer returned by \<open>http.NewRequest\<close>
  is passed on whatever the error says, and the wrapped error goes through
  \<open>SetErr\<close>.
\<close>

definition Request :: "'d env \<Rightarrow> 'a BasicRequest_scheme \<Rightarrow> request option \<times> 'a BasicRequest_scheme" where
  "Request E r =
     (let (request, e) = new_request E ''GET'' (url r)
      in (request, SetErr r (Wrap e ''Error creating BasicRequest'')))"

text \<open>
  The calls a worker makes while it handles one task are recorded, in order, next to
  the task: a run is the task together with the calls made so far.
\<close>

datatype event =
    CallRequest
  | CallClientDo "request option"
  | CallDecode
  | CallClose
  | CallSetErr "error option"
  | CallDone

type_synonym 'd run = "'d JSONRequest \<times> event list"

definition call_Request :: "'d env \<Rightarrow> 'd run \<Rightarrow> request option \<times> 'd run" where
  "call_Request E s =
     (let (request, r) = Request E (fst s) in (request, (r, snd s @ [CallRequest])))"

definition call_ClientDo :: "'d env \<Rightarrow> request option \<Rightarrow> 'd run \<Rightarrow> (error + response) \<times> 'd run" where
  "call_ClientDo E request s = (client_do E request, (fst s, snd s @ [CallClientDo request]))"

definition call_Decode :: "'d env \<Rightarrow> response \<Rightarrow> 'd run \<Rightarrow> error option \<times> 'd run" where
  "call_Decode E resp s =
     (let (d, e) = json_decode E (Body resp) (data (fst s))
      in (e, ((fst s)\<lparr> data := d \<rparr>, snd s @ [CallDecode])))"

definition call_Close :: "'d env \<Rightarrow> response \<Rightarrow> 'd run \<Rightarrow> error option \<times> 'd run" where
  "call_Close E resp s = (body_close E resp, (fst s, snd s @ [CallClose]))"

definition call_SetErr :: "error option \<Rightarrow> 'd run \<Rightarrow> 'd run" where
  "call_SetErr e s = (SetErr (fst s) e, snd s @ [CallSetErr e])"

definition call_Done :: "'d run \<Rightarrow> 'd run" where
  "call_Done s = (Done (fst s), snd s @ [CallDone])"

text \<open>
  The function literal in the body of \<open>Worker\<close>'s loop. The deferred function
  runs when the literal returns, on both paths that follow the \<open>defer\<close>
  statement, and not on the path that returns before it.
\<close>

definition deferred_close :: "'d env \<Rightarrow> response \<Rightarrow> 'd run \<Rightarrow> 'd run" where
  "deferred_close E resp s = (let (e, s') = call_Close E resp s in call_SetErr e s')"

definition fetch_decode :: "'d env \<Rightarrow> 'd run \<Rightarrow> 'd run" where
  "fetch_decode E s0 =
     (let (request, s1) = call_Request E s0;
          (res, s2) = call_ClientDo E request s1
      in case res of
           Inl e \<Rightarrow> call_SetErr (Wrap (Some e) ''HTTP: Error performing request'') s2
         | Inr resp \<Rightarrow>
             (let (e, s3) = call_Decode E resp s2
              in if e \<noteq> None
                 then deferred_close E resp
                        (call_SetErr (Wrap e ''JSON: Error decoding response'') s3)
                 else deferred_close E resp s3))"

text \<open>One iteration of the loop: the function literal, then \<open>r.Done()\<close>.\<close>

definition serve :: "'d env \<Rightarrow> 'd run \<Rightarrow> 'd run" where
  "serve E s = call_Done (fetch_decode E s)"

text \<open>
  A collaborator set used to evaluate the model on concrete inputs: the empty URL
  is malformed, the host \<open>down\<close> refuses the connection, the host \<open>text\<close>
  answers with a body that is not JSON, and a \<open>nil\<close> request is answered with
  an error. In the second set every close fails.
\<close>

definition example_env :: "nat env" where
  "example_env =
     \<lparr> new_request = (\<lambda>m u. if u = [] then (None, Some (Error ''parse: empty url''))
                            else (Some \<lparr> Method = m, URL = u \<rparr>, None)),
       client_do = (\<lambda>rq. case rq of
                            None \<Rightarrow> Inl (Error ''nil request'')
                          | Some q \<Rightarrow> if URL q = ''http://down''
                                      then Inl (Error ''connection refused'')
                                      else Inr \<lparr> Body = (if URL q = ''http://text''
                                                        then ''hello'' else ''42'') \<rparr>),
       json_decode = (\<lambda>b d. if b = ''42'' then (42, None)
                            else (d, Some (Error ''invalid character''))),
       body_close = (\<lambda>resp. None) \<rparr>"

definition failing_close_env :: "nat env" where
  "failing_close_env = example_env \<lparr> body_close := (\<lambda>resp. Some (Error ''close failed'')) \<rparr>"

definition example_task :: "string \<Rightarrow> nat JSONRequest" where
  "example_task u = \<lparr> err = None, url = u, data = 0, done_calls = 0 \<rparr>"

section \<open>The worker loop\<close>

text \<open>
  A \<open>JSONRequest\<close> value is a pointer: the tasks live in a store, and the queue
  carries their addresses. \<open>Worker\<close> ranges over the channel until it is closed;
  the list argument is the sequence of values this worker receives up to then.
  The log lists what the worker does: the receipt of a task, the calls it makes for
  that task, and at the end \<open>wg.Done()\<close>.
\<close>

type_synonym 'd store = "nat \<Rightarrow> 'd JSONRequest"

datatype entry = Took nat | Call nat event | WgDone

definition iteration :: "'d env \<Rightarrow> nat \<Rightarrow> 'd store \<times> entry list \<Rightarrow> 'd store \<times> entry list" where
  "iteration E a s =
     (let (r, evs) = serve E (fst s a, [])
      in ((fst s)(a := r), snd s @ Took a # map (Call a) evs))"

fun Worker :: "'d env \<Rightarrow> nat list \<Rightarrow> 'd store \<times> entry list \<Rightarrow> 'd store \<times> entry list" where
  "Worker E [] s = (fst s, snd s @ [WgDone])"
| "Worker E (a # as) s = Worker E as (iteration E a s)"


section \<open>The pool\<close>

text \<open>
  \<open>sync.WaitGroup\<close>: \<open>Add(delta)\<close> adds \<open>delta\<close> to the counter and panics
  when the counter becomes negative; \<open>Done()\<close> is \<open>Add(-1)\<close>; \<open>Wait()\<close>
  blocks until the counter is zero. Sending on a closed channel and closing a closed
  channel panic as well.
\<close>

datatype panic = NegativeWaitGroupCounter | SendOnClosedChannel | CloseOfClosedChannel

definition wg_Add :: "int \<Rightarrow> int \<Rightarrow> panic + int" where
  "wg_Add c delta = (if c + delta < 0 then Inl NegativeWaitGroupCounter else Inr (c + delta))"

text \<open>
  A worker goroutine is blocked in the receive of \<open>range in\<close>, or between the
  receipt of a task and the return of \<open>r.Done()\<close>, or it has left the loop and
  called \<open>wg.Done()\<close>.
\<close>

datatype worker = Receiving | Processing nat | Exited

text \<open>
  \<open>type Pool struct { in chan JSONRequest; wg *sync.WaitGroup }\<close>. The channel
  is unbuffered, so it never holds a value: all there is to its state is whether it
  has been closed. \<open>workers\<close> are the goroutines started on the channel.
\<close>

record Pool =
  closed :: bool
  workers :: "worker list"
  wg :: int

text \<open>
  The loop \<open>for i := uint(0); i < n; i++ { go Worker(p.in, p.wg) }\<close>, with
  \<open>uint\<close> a 64-bit word.
\<close>

function spawn :: "64 word \<Rightarrow> 64 word \<Rightarrow> worker list \<Rightarrow> worker list" where
  "spawn i n ws = (if i < n then spawn (i + 1) n (ws @ [Receiving]) else ws)"
  by pat_completeness auto
termination
proof (relation "measure (\<lambda>(i, n, ws). unat n - unat i)")
  show "wf (measure (\<lambda>(i, n, ws). unat n - unat i))"
    by simp
next
  fix i n :: "64 word" and ws :: "worker list"
  assume "i < n"
  then have "unat i < unat n"
    by (simp add: word_less_nat_alt)
  moreover have "unat n < 2 ^ LENGTH(64)"
    by (rule unsigned_less)
  ultimately have "unat i + unat (1 :: 64 word) < 2 ^ LENGTH(64)"
    by simp
  then have "unat (i + 1) = unat i + 1"
    by (simp add: unat_add_lem [THEN iffD1])
  with \<open>unat i < unat n\<close>
  show "((i + 1, n, ws @ [Receiving]), (i, n, ws)) \<in> measure (\<lambda>(i, n, ws). unat n - unat i)"
    by simp
qed

text \<open>
  \<open>NewPool(n)\<close>: \<open>p.wg.Add(int(n))\<close> on a fresh counter, then the loop. The
  conversion \<open>int(n)\<close> reads the 64 bits as a signed number.
\<close>

definition NewPool :: "64 word \<Rightarrow> panic + Pool" where
  "NewPool n =
     (case wg_Add 0 (sint n) of
        Inl p \<Rightarrow> Inl p
      | Inr c \<Rightarrow> Inr \<lparr> closed = False, workers = spawn 0 n [], wg = c \<rparr>)"

text \<open>
  The caller of \<open>p.Do(rqs...); p.Stop()\<close> is in the loop of \<open>Pool.Do\<close> with the
  tasks it still has to send, or it has closed the channel and is blocked in
  \<open>p.wg.Wait()\<close>, or \<open>Stop\<close> has returned. The system is the pool, the caller,
  the store of the tasks, and the addresses on which \<open>Done()\<close> has returned, in
  that order.
\<close>

datatype caller = Sending "nat list" | Waiting | Returned

record 'd system = Pool +
  caller :: caller
  store :: "'d store"
  finished :: "nat list"

definition submit :: "Pool \<Rightarrow> nat list \<Rightarrow> 'd store \<Rightarrow> 'd system" where
  "submit p rqs h =
     \<lparr> closed = closed p, workers = workers p, wg = wg p,
       caller = Sending rqs, store = h, finished = [] \<rparr>"

text \<open>
  The top-level \<open>Do\<close> and \<open>DoN\<close>: the pool they create, with the caller about to
  run \<open>p.Do(rqs...)\<close> and \<open>p.Stop()\<close>; or the panic of \<open>NewPool\<close>.
  \<open>uint(len(rqs))\<close> is the length as a word.
\<close>

definition Do :: "nat list \<Rightarrow> 'd store \<Rightarrow> panic + 'd system" where
  "Do rqs h =
     (case NewPool (word_of_nat (length rqs)) of
        Inl p \<Rightarrow> Inl p
      | Inr p \<Rightarrow> Inr (submit p rqs h))"

definition DoN :: "64 word \<Rightarrow> nat list \<Rightarrow> 'd store \<Rightarrow> panic + 'd system" where
  "DoN n rqs h =
     (let n' = (if n < 1 then 1 else n)
      in case NewPool n' of
           Inl p \<Rightarrow> Inl p
         | Inr p \<Rightarrow> Inr (submit p rqs h))"

text \<open>
  The goroutines interleave. One action is one of the synchronisations of the
  program:
  \<^item> \<open>Send i\<close>: the caller's \<open>p.in <- rq\<close> meets the receive of worker \<open>i\<close>;
  \<^item> \<open>Serve i E\<close>: worker \<open>i\<close> runs the function literal and \<open>r.Done()\<close> on
    its task, the collaborators answering as \<open>E\<close>, and is back at the receive;
  \<^item> \<open>Close\<close>: the caller's \<open>close(p.in)\<close> in \<open>Stop\<close>;
  \<^item> \<open>Exit i\<close>: worker \<open>i\<close> finds the channel closed, leaves the loop and calls
    \<open>wg.Done()\<close>;
  \<^item> \<open>Return\<close>: \<open>p.wg.Wait()\<close> returns, and \<open>Stop\<close> with it.
  An action that the state does not allow is \<open>Blocked\<close>. Between its receipt of a
  task and \<open>Serve\<close> a worker touches nothing but that task, so the effects of one
  iteration are applied in one step. (Two workers that hold the same task at the
  same time, after it was sent twice, apply their iterations one after the other.)
\<close>

datatype 'd action = Send nat | Serve nat "'d env" | Close | Exit nat | Return

datatype 'd outcome = Blocked | Panic panic | Next "'d system"

fun fire :: "'d action \<Rightarrow> 'd system \<Rightarrow> 'd outcome" where
  "fire (Send i) s =
     (case caller s of
        Sending (a # as) \<Rightarrow>
          if closed s then Panic SendOnClosedChannel
          else if i < length (workers s) \<and> workers s ! i = Receiving
          then Next (s\<lparr> workers := (workers s)[i := Processing a], caller := Sending as \<rparr>)
          else Blocked
      | _ \<Rightarrow> Blocked)"
| "fire (Serve i E) s =
     (if i < length (workers s)
      then (case workers s ! i of
              Processing a \<Rightarrow>
                Next (s\<lparr> workers := (workers s)[i := Receiving],
                         store := (store s)(a := fst (serve E (store s a, []))),
                         finished := finished s @ [a] \<rparr>)
            | _ \<Rightarrow> Blocked)
      else Blocked)"
| "fire Close s =
     (case caller s of
        Sending [] \<Rightarrow>
          if closed s then Panic CloseOfClosedChannel
          else Next (s\<lparr> closed := True, caller := Waiting \<rparr>)
      | _ \<Rightarrow> Blocked)"
| "fire (Exit i) s =
     (if i < length (workers s) \<and> workers s ! i = Receiving \<and> closed s
      then (case wg_Add (wg s) (- 1) of
              Inl p \<Rightarrow> Panic p
            | Inr c \<Rightarrow> Next (s\<lparr> workers := (workers s)[i := Exited], wg := c \<rparr>))
      else Blocked)"
| "fire Return s =
     (if caller s = Waiting \<and> wg s = 0 then Next (s\<lparr> caller := Returned \<rparr>) else Blocked)"

text \<open>A schedule is run action by action; it stops at the first panic.\<close>

fun exec :: "'d action list \<Rightarrow> 'd system \<Rightarrow> 'd outcome" where
  "exec [] s = Next s"
| "exec (x # xs) s = (case fire x s of Next t \<Rightarrow> exec xs t | out \<Rightarrow> out)"

text \<open>The tasks that are being fetched and decoded, one for each busy worker.\<close>

definition in_flight :: "'a Pool_scheme \<Rightarrow> nat list" where
  "in_flight s = concat (map (\<lambda>w. case w of Processing a \<Rightarrow> [a] | _ \<Rightarrow> []) (workers s))"

definition example_store :: "nat store" where
  "example_store = (\<lambda>a. example_task (if a = 0 then ''http://ok'' else if a = 1 then ''http://down'' else []))"

text \<open>
  Notions used to state what the executions of the system do: the tasks the caller
  has not sent yet; the result of several iterations on one task, one collaborator
  set for each; the workers that have not exited; and a number that every action
  lowers by one.
\<close>

definition pending :: "'d system \<Rightarrow> nat list" where
  "pending s = (case caller s of Sending as \<Rightarrow> as | _ \<Rightarrow> [])"

definition serve_all :: "'d env list \<Rightarrow> 'd JSONRequest \<Rightarrow> 'd JSONRequest" where
  "serve_all Es r = foldl (\<lambda>r E. fst (serve E (r, []))) r Es"

definition alive :: "worker list \<Rightarrow> nat" where
  "alive ws = length (filter (\<lambda>w. w \<noteq> Exited) ws)"



text \<open>
  What holds in every state that \<open>p.Do(rqs...); p.Stop()\<close> reaches from a store
  \<open>h\<close>: the counter of the wait group is the number of workers that have not
  exited; the channel is closed exactly when the caller has left the loop of
  \<open>Pool.Do\<close>; no worker exits before that; \<open>Stop\<close> returns on a zero counter;
  every task is with the caller, with a worker, or finished; and a task's state is
  the result of as many iterations as it finished.
\<close>

definition invariant :: "nat list \<Rightarrow> 'd store \<Rightarrow> 'd system \<Rightarrow> bool" where
  "invariant rqs h s \<longleftrightarrow>
     wg s = int (alive (workers s))
     \<and> closed s = (case caller s of Sending as \<Rightarrow> False | _ \<Rightarrow> True)
     \<and> (\<not> closed s \<longrightarrow> Exited \<notin> set (workers s))
     \<and> (caller s = Returned \<longrightarrow> wg s = 0)
     \<and> mset rqs = mset (pending s) + mset (in_flight s) + mset (finished s)
     \<and> (\<forall>a. \<exists>Es. length Es = count_list (finished s) a \<and> store s a = serve_all Es (h a))"

section \<open>The error latch\<close>

lemma last_non_nil_Nil: "last_non_nil [] = None"
  by (simp add: last_non_nil_def)

lemma last_non_nil_snoc:
  "last_non_nil (es @ [e]) = (if e = None then last_non_nil es else e)"
  by (simp add: last_non_nil_def)

lemma Err_SetErr: "Err (SetErr r e) = (if e = None then Err r else e)"
  by (cases "err r") (simp_all add: Err_def SetErr_def)

lemma Err_foldl_SetErr:
  "Err (foldl SetErr r es) = (if last_non_nil es = None then Err r else last_non_nil es)"
proof (induction es rule: rev_induct)
  case Nil
  show ?case by (simp add: last_non_nil_Nil)
next
  case (snoc e es)
  show ?case
    by (cases e) (simp_all add: Err_SetErr last_non_nil_snoc snoc.IH)
qed

text \<open>
  Claim C1 (error latch). After any sequence \<open>es\<close> of \<open>SetErr\<close> calls on a
  task, \<open>Err\<close> returns the argument of the last call that was not \<open>nil\<close>; when
  every argument was \<open>nil\<close> the value held before the sequence is kept, which is
  \<open>nil\<close> for a task made by \<open>NewBasicRequest\<close>. \<open>SetErr(nil)\<close> leaves a
  recorded error in place, and \<open>SetErr\<close> of an error always replaces the value.
\<close>

theorem SetErr_latch:
  "Err (foldl SetErr (NewBasicRequest u) es) = last_non_nil es
   \<and> Err (foldl SetErr r es) = (if last_non_nil es = None then Err r else last_non_nil es)
   \<and> Err (SetErr r None) = Err r
   \<and> Err (SetErr r (Some e)) = Some e"
proof -
  have "Err (NewBasicRequest u) = None"
    by (simp add: Err_def NewBasicRequest_def)
  then have "Err (foldl SetErr (NewBasicRequest u) es) = last_non_nil es"
    by (simp add: Err_foldl_SetErr)
  then show ?thesis
    by (simp add: Err_foldl_SetErr Err_SetErr)
qed

theorem SetErr_latch_witness:
  "Err (foldl SetErr (NewBasicRequest ''http://a'')
          [Some (Error ''first''), None, Some (Error ''second''), None])
     = Some (Error ''second'')
   \<and> last_non_nil [Some (Error ''first''), None, Some (Error ''second''), None]
     = Some (Error ''second'')
   \<and> Err (SetErr (SetErr (NewBasicRequest ''http://a'') (Some (Error ''first''))) None)
     = Some (Error ''first'')"
  using SetErr_latch [of "''http://a''"
      "[Some (Error ''first''), None, Some (Error ''second''), None]"
      "SetErr (NewBasicRequest ''http://a'') (Some (Error ''first''))" "Error ''x''"]
  by (simp add: last_non_nil_def Err_def SetErr_def NewBasicRequest_def)

section \<open>One fetch-decode cycle\<close>

lemma Request_eq:
  "Request E r = (fst (new_request E ''GET'' (url r)),
                  SetErr r (Wrap (snd (new_request E ''GET'' (url r))) ''Error creating BasicRequest''))"
  by (simp add: Request_def split_beta)

lemma fetch_decode_failed:
  assumes "client_do E (fst (Request E r)) = Inl e"
  shows "fetch_decode E (r, l) =
           (SetErr (snd (Request E r)) (Some (Wrapped e ''HTTP: Error performing request'')),
            l @ [CallRequest, CallClientDo (fst (Request E r)),
                 CallSetErr (Some (Wrapped e ''HTTP: Error performing request''))])"
  using assms
  by (simp add: fetch_decode_def call_Request_def call_ClientDo_def call_SetErr_def
      Wrap_def split_beta)

lemma fetch_decode_fetched:
  assumes "client_do E (fst (Request E r)) = Inr resp"
    and "json_decode E (Body resp) (data (snd (Request E r))) = (d, de)"
  shows "fetch_decode E (r, l) =
           (SetErr (if de \<noteq> None
                    then SetErr ((snd (Request E r))\<lparr> data := d \<rparr>)
                           (Wrap de ''JSON: Error decoding response'')
                    else (snd (Request E r))\<lparr> data := d \<rparr>)
              (body_close E resp),
            l @ [CallRequest, CallClientDo (fst (Request E r)), CallDecode]
              @ (if de \<noteq> None then [CallSetErr (Wrap de ''JSON: Error decoding response'')] else [])
              @ [CallClose, CallSetErr (body_close E resp)])"
  using assms
  by (simp add: fetch_decode_def call_Request_def call_ClientDo_def call_SetErr_def
      call_Decode_def call_Close_def deferred_close_def split_beta)

lemma data_SetErr: "data (SetErr r e) = data r"
  by (simp add: SetErr_def)

lemma done_calls_SetErr: "done_calls (SetErr r e) = done_calls r"
  by (simp add: SetErr_def)

lemma Request_frame:
  "data (snd (Request E r)) = data r" "done_calls (snd (Request E r)) = done_calls r"
  by (simp_all add: Request_eq data_SetErr done_calls_SetErr)

lemma serve_eq: "serve E s = (Done (fst (fetch_decode E s)), snd (fetch_decode E s) @ [CallDone])"
  by (simp add: serve_def call_Done_def)

lemma iteration_eq:
  "iteration E a (h, l) =
     (h(a := Done (fst (fetch_decode E (h a, [])))),
      l @ Took a # map (Call a) (snd (fetch_decode E (h a, []))) @ [Call a CallDone])"
  by (simp add: iteration_def serve_eq)

text \<open>
  Claim C4 (a transport failure short-circuits). When the fetch of the task at
  address \<open>a\<close> fails with \<open>e\<close>, the function literal records the wrapped
  transport error, which is then the value of the latch, and makes no further call:
  no decode, no close. The decode target keeps its value. The iteration changes the
  store at \<open>a\<close> only, where \<open>Done\<close> is still applied, and the worker goes on
  with the rest of the queue.
\<close>

theorem transport_failure_short_circuits:
  assumes "client_do E (fst (Request E (h a))) = Inl e"
  shows "Err (fst (fetch_decode E (h a, []))) = Some (Wrapped e ''HTTP: Error performing request'')
       \<and> snd (fetch_decode E (h a, [])) =
           [CallRequest, CallClientDo (fst (Request E (h a))),
            CallSetErr (Some (Wrapped e ''HTTP: Error performing request''))]
       \<and> CallDecode \<notin> set (snd (fetch_decode E (h a, [])))
       \<and> data (fst (fetch_decode E (h a, []))) = data (h a)
       \<and> fst (iteration E a (h, l)) = h(a := Done (fst (fetch_decode E (h a, []))))
       \<and> Worker E (a # as) (h, l) = Worker E as (iteration E a (h, l))"
proof -
  note fd = fetch_decode_failed [OF assms, of "[]"]
  have "Err (fst (fetch_decode E (h a, []))) = Some (Wrapped e ''HTTP: Error performing request'')"
    by (simp add: fd Err_SetErr)
  moreover have "data (fst (fetch_decode E (h a, []))) = data (h a)"
    by (simp add: fd data_SetErr Request_frame)
  moreover have "fst (iteration E a (h, l)) = h(a := Done (fst (fetch_decode E (h a, []))))"
    by (simp add: iteration_eq)
  ultimately show ?thesis
    by (simp add: fd)
qed

theorem transport_failure_short_circuits_witness:
  "client_do example_env (fst (Request example_env (example_store 1))) = Inl (Error ''connection refused'')
   \<and> Err (fst (fetch_decode example_env (example_store 1, []))) =
       Some (Wrapped (Error ''connection refused'') ''HTTP: Error performing request'')
   \<and> CallDecode \<notin> set (snd (fetch_decode example_env (example_store 1, [])))
   \<and> data (fst (fetch_decode example_env (example_store 1, []))) = 0
   \<and> fst (Worker example_env [1, 0] (example_store, [])) 0 =
       \<lparr> err = None, url = ''http://ok'', data = 42, done_calls = 1 \<rparr>"
proof -
  have f: "client_do example_env (fst (Request example_env (example_store 1))) = Inl (Error ''connection refused'')"
    by (simp add: example_env_def example_store_def example_task_def Request_eq)
  have w: "fst (Worker example_env [0] (iteration example_env 1 (example_store, []))) 0 =
       \<lparr> err = None, url = ''http://ok'', data = 42, done_calls = 1 \<rparr>"
    by (simp add: iteration_eq fetch_decode_def call_Request_def call_ClientDo_def call_SetErr_def
      call_Decode_def call_Close_def deferred_close_def Request_eq example_env_def example_store_def
      example_task_def SetErr_def Wrap_def Done_def)
  from transport_failure_short_circuits
         [of example_env example_store 1 "Error ''connection refused''" "[]" "[0]", OF f] f w
  show ?thesis
    by (simp add: example_store_def example_task_def)
qed

lemma Err_data_update: "Err (r\<lparr> data := d \<rparr>) = Err r"
  by (simp add: Err_def)

lemma fetch_decode_cases:
  obtains (failed) e where "client_do E (fst (Request E r)) = Inl e"
  | (fetched) resp d de where "client_do E (fst (Request E r)) = Inr resp"
      and "json_decode E (Body resp) (data (snd (Request E r))) = (d, de)"
proof (cases "client_do E (fst (Request E r))")
  case (Inl e)
  then show ?thesis by (rule failed)
next
  case (Inr resp)
  then show ?thesis
    by (cases "json_decode E (Body resp) (data (snd (Request E r)))") (rule fetched)
qed

text \<open>
  Claim C5 (the release error overwrites). When the fetch succeeds, the body is
  closed after the decode, as the last call but the \<open>SetErr\<close> that records the
  result of the close. The latch then holds the release error if there is one,
  whatever was recorded before and whether or not the decode succeeded; otherwise it
  holds the decode error if there is one, and otherwise what \<open>Request\<close> left.
\<close>

theorem release_error_overwrites:
  assumes "client_do E (fst (Request E r)) = Inr resp"
  shows "(\<exists>pre. snd (fetch_decode E (r, [])) = pre @ [CallClose, CallSetErr (body_close E resp)]
            \<and> CallDecode \<in> set pre \<and> CallClose \<notin> set pre)
       \<and> Err (fst (fetch_decode E (r, []))) =
           (case body_close E resp of
              Some ce \<Rightarrow> Some ce
            | None \<Rightarrow>
                (case snd (json_decode E (Body resp) (data r)) of
                   Some de \<Rightarrow> Some (Wrapped de ''JSON: Error decoding response'')
                 | None \<Rightarrow> Err (snd (Request E r))))
       \<and> (\<forall>ce. body_close E resp = Some ce \<longrightarrow> Err (fst (fetch_decode E (r, []))) = Some ce)"
proof -
  obtain d de where dec: "json_decode E (Body resp) (data (snd (Request E r))) = (d, de)"
    by (cases "json_decode E (Body resp) (data (snd (Request E r)))")
  note fd = fetch_decode_fetched [OF assms dec, of "[]"]
  have dec': "snd (json_decode E (Body resp) (data r)) = de"
    using dec by (simp add: Request_frame)
  have log: "\<exists>pre. snd (fetch_decode E (r, [])) = pre @ [CallClose, CallSetErr (body_close E resp)]
            \<and> CallDecode \<in> set pre \<and> CallClose \<notin> set pre"
  proof (cases de)
    case None
    then have "snd (fetch_decode E (r, [])) =
        [CallRequest, CallClientDo (fst (Request E r)), CallDecode] @ [CallClose, CallSetErr (body_close E resp)]"
      by (simp add: fd)
    then show ?thesis by (intro exI conjI) (assumption, simp_all)
  next
    case (Some x)
    then have "snd (fetch_decode E (r, [])) =
        [CallRequest, CallClientDo (fst (Request E r)), CallDecode,
         CallSetErr (Wrap de ''JSON: Error decoding response'')]
        @ [CallClose, CallSetErr (body_close E resp)]"
      by (simp add: fd)
    then show ?thesis by (intro exI conjI) (assumption, simp_all)
  qed
  have latch: "Err (fst (fetch_decode E (r, []))) =
           (case body_close E resp of
              Some ce \<Rightarrow> Some ce
            | None \<Rightarrow>
                (case de of
                   Some x \<Rightarrow> Some (Wrapped x ''JSON: Error decoding response'')
                 | None \<Rightarrow> Err (snd (Request E r))))"
    by (cases de; cases "body_close E resp") (simp_all add: fd Err_SetErr Wrap_def Err_data_update)
  then have final: "\<forall>ce. body_close E resp = Some ce \<longrightarrow> Err (fst (fetch_decode E (r, []))) = Some ce"
    by simp
  show ?thesis
    unfolding dec' by (intro conjI log latch final)
qed

lemmas example_defs =
  example_env_def failing_close_env_def example_store_def example_task_def

lemmas cycle_defs =
  fetch_decode_def call_Request_def call_ClientDo_def call_SetErr_def call_Decode_def
  call_Close_def deferred_close_def Request_eq SetErr_def Wrap_def Done_def

theorem release_error_overwrites_witness:
  "client_do failing_close_env (fst (Request failing_close_env (example_task ''http://ok'')))
     = Inr \<lparr> Body = ''42'' \<rparr>
   \<and> snd (json_decode failing_close_env ''42'' (data (example_task ''http://ok''))) = None
   \<and> body_close failing_close_env \<lparr> Body = ''42'' \<rparr> = Some (Error ''close failed'')
   \<and> Err (fst (fetch_decode failing_close_env (example_task ''http://ok'', [])))
     = Some (Error ''close failed'')
   \<and> data (fst (fetch_decode failing_close_env (example_task ''http://ok'', []))) = 42"
proof -
  have f: "client_do failing_close_env (fst (Request failing_close_env (example_task ''http://ok'')))
     = Inr \<lparr> Body = ''42'' \<rparr>"
    by (simp add: example_defs Request_eq)
  have d: "data (fst (fetch_decode failing_close_env (example_task ''http://ok'', []))) = 42"
    by (simp add: example_defs cycle_defs)
  from release_error_overwrites
         [of failing_close_env "example_task ''http://ok''" "\<lparr> Body = ''42'' \<rparr>", OF f] f d
  show ?thesis
    by (simp add: example_defs)
qed



section \<open>Completion\<close>


lemma done_calls_fetch_decode: "done_calls (fst (fetch_decode E (r, l))) = done_calls r"
proof (cases rule: fetch_decode_cases [of E r])
  case (failed e)
  then show ?thesis by (simp add: fetch_decode_failed done_calls_SetErr Request_frame)
next
  case (fetched resp d de)
  then show ?thesis by (simp add: fetch_decode_fetched done_calls_SetErr Request_frame)
qed

lemma done_calls_serve: "done_calls (fst (serve E (r, l))) = done_calls r + 1"
  by (simp add: serve_eq Done_def done_calls_fetch_decode)






section \<open>Creating the pool\<close>

declare spawn.simps [simp del]

lemma spawn_replicate:
  "i \<le> n \<Longrightarrow> spawn i n ws = ws @ replicate (unat n - unat i) Receiving"
proof (induction i n ws rule: spawn.induct)
  case (1 i n ws)
  show ?case
  proof (cases "i < n")
    case True
    then have lt: "unat i < unat n"
      by (simp add: word_less_nat_alt)
    moreover have "unat n < 2 ^ LENGTH(64)"
      by (rule unsigned_less)
    ultimately have "unat i + unat (1 :: 64 word) < 2 ^ LENGTH(64)"
      by simp
    then have suc: "unat (i + 1) = unat i + 1"
      by (simp add: unat_add_lem [THEN iffD1])
    with lt have "i + 1 \<le> n"
      by (simp add: word_le_nat_alt)
    from "1.IH" [OF True this] have "spawn (i + 1) n (ws @ [Receiving]) =
        (ws @ [Receiving]) @ replicate (unat n - unat (i + 1)) Receiving" .
    moreover have "unat n - unat i = Suc (unat n - unat (i + 1))"
      using lt suc by simp
    ultimately show ?thesis
      using True by (subst spawn.simps) (simp add: replicate_app_Cons_same)
  next
    case False
    with "1.prems" have "i = n" by simp
    then show ?thesis
      by (subst spawn.simps) simp
  qed
qed

lemma NewPool_ok:
  assumes "0 \<le> sint n"
  shows "NewPool n = Inr \<lparr> closed = False, workers = replicate (unat n) Receiving, wg = int (unat n) \<rparr>"
proof -
  have "sint n < 2 ^ (LENGTH(64) - 1)"
    by (rule sint_lt)
  then have "sint n < 2 ^ LENGTH(64)"
    by simp
  with assms have "take_bit LENGTH(64) (sint n) = sint n"
    by (simp add: take_bit_int_eq_self)
  then have "sint n = uint n"
    by (simp add: uint_sint)
  then have "sint n = int (unat n)"
    by simp
  then show ?thesis
    using assms by (simp add: NewPool_def wg_Add_def spawn_replicate)
qed

lemma NewPool_panics:
  assumes "sint n < 0"
  shows "NewPool n = Inl NegativeWaitGroupCounter"
  using assms by (simp add: NewPool_def wg_Add_def)

lemma NewPool_Inr:
  assumes "NewPool n = Inr p"
  shows "p = \<lparr> closed = False, workers = replicate (unat n) Receiving, wg = int (unat n) \<rparr>"
proof (cases "0 \<le> sint n")
  case True
  from NewPool_ok [OF True] assms show ?thesis by simp
next
  case False
  then have "sint n < 0" by simp
  from NewPool_panics [OF this] assms show ?thesis by simp
qed

section \<open>What every execution of the pool maintains\<close>

lemma sum_list_map_update:
  fixes f :: "'a \<Rightarrow> 'b::comm_monoid_add"
  shows "i < length ws \<Longrightarrow> sum_list (map f (ws[i := x])) + f (ws ! i) = sum_list (map f ws) + f x"
proof (induction ws arbitrary: i)
  case Nil
  then show ?case by simp
next
  case (Cons w ws)
  show ?case
  proof (cases i)
    case 0
    then show ?thesis by (simp add: ac_simps)
  next
    case (Suc j)
    with Cons.prems have "j < length ws" by simp
    from Cons.IH [OF this] show ?thesis
      using Suc by (simp add: ac_simps)
  qed
qed

lemma alive_sum: "alive ws = sum_list (map (\<lambda>w. if w = Exited then 0 else 1) ws)"
  by (induction ws) (simp_all add: alive_def)

lemma mset_in_flight_sum:
  "mset (in_flight s) = sum_list (map (\<lambda>w. case w of Processing a \<Rightarrow> {#a#} | _ \<Rightarrow> {#}) (workers s))"
proof -
  have "mset (concat (map (\<lambda>w. case w of Processing a \<Rightarrow> [a] | _ \<Rightarrow> []) ws))
      = sum_list (map (\<lambda>w. case w of Processing a \<Rightarrow> {#a#} | _ \<Rightarrow> {#}) ws)" for ws
    by (induction ws) (simp_all split: worker.splits)
  then show ?thesis by (simp add: in_flight_def)
qed

lemma length_in_flight: "length (in_flight s) \<le> length (workers s)"
proof -
  have "length (concat (map (\<lambda>w. case w of Processing a \<Rightarrow> [a] | _ \<Rightarrow> []) ws)) \<le> length ws" for ws
    by (induction ws) (simp_all split: worker.splits)
  then show ?thesis by (simp add: in_flight_def)
qed

lemma fire_NextE:
  assumes "fire x s = Next t"
  obtains
    (Send) i a as where "x = Send i" "caller s = Sending (a # as)" "\<not> closed s"
      "i < length (workers s)" "workers s ! i = Receiving"
      "t = s\<lparr> workers := (workers s)[i := Processing a], caller := Sending as \<rparr>"
  | (Serve) i E a where "x = Serve i E" "i < length (workers s)" "workers s ! i = Processing a"
      "t = s\<lparr> workers := (workers s)[i := Receiving],
               store := (store s)(a := fst (serve E (store s a, []))),
               finished := finished s @ [a] \<rparr>"
  | (Close) "x = Close" "caller s = Sending []" "\<not> closed s"
      "t = s\<lparr> closed := True, caller := Waiting \<rparr>"
  | (Exit) i where "x = Exit i" "i < length (workers s)" "workers s ! i = Receiving" "closed s"
      "0 < wg s" "t = s\<lparr> workers := (workers s)[i := Exited], wg := wg s - 1 \<rparr>"
  | (Return) "x = Return" "caller s = Waiting" "wg s = 0" "t = s\<lparr> caller := Returned \<rparr>"
proof (cases x)
  case (Send i)
  with assms show ?thesis
    by (auto split: caller.splits list.splits if_splits intro: that(1))
next
  case (Serve i E)
  with assms show ?thesis
    by (auto split: worker.splits if_splits intro: that(2))
next
  case Close
  with assms show ?thesis
    by (auto split: caller.splits list.splits if_splits intro: that(3))
next
  case (Exit i)
  with assms show ?thesis
    by (auto simp: wg_Add_def split: if_splits intro: that(4))
next
  case Return
  with assms show ?thesis
    by (auto split: if_splits intro: that(5))
qed

lemma alive_update:
  "i < length ws \<Longrightarrow>
   alive (ws[i := x]) + (if ws ! i = Exited then 0 else 1) = alive ws + (if x = Exited then 0 else 1)"
  unfolding alive_sum by (rule sum_list_map_update)

lemma in_flight_update:
  assumes "i < length (workers s)"
  shows "mset (in_flight (s\<lparr> workers := (workers s)[i := x] \<rparr>))
           + (case workers s ! i of Processing a \<Rightarrow> {#a#} | _ \<Rightarrow> {#})
         = mset (in_flight s) + (case x of Processing a \<Rightarrow> {#a#} | _ \<Rightarrow> {#})"
  unfolding mset_in_flight_sum using sum_list_map_update [OF assms] by simp

lemma serve_all_snoc: "serve_all (Es @ [E]) r = fst (serve E (serve_all Es r, []))"
  by (simp add: serve_all_def)

lemma invariantD:
  assumes "invariant rqs h s"
  shows "wg s = int (alive (workers s))"
    and "closed s = (case caller s of Sending as \<Rightarrow> False | _ \<Rightarrow> True)"
    and "\<not> closed s \<longrightarrow> Exited \<notin> set (workers s)"
    and "caller s = Returned \<longrightarrow> wg s = 0"
    and "mset rqs = mset (pending s) + mset (in_flight s) + mset (finished s)"
    and "\<forall>a. \<exists>Es. length Es = count_list (finished s) a \<and> store s a = serve_all Es (h a)"
  using assms unfolding invariant_def by blast+

lemma invariant_fire:
  assumes inv: "invariant rqs h s" and step: "fire x s = Next t"
  shows "invariant rqs h t"
  using step
proof (cases rule: fire_NextE)
  case (Send i a as)
  note wgs = invariantD(1) [OF inv] and ms = invariantD(5) [OF inv] and st = invariantD(6) [OF inv]
  have ex: "Exited \<notin> set (workers s)"
    using invariantD(3) [OF inv] Send(3) by simp
  have "alive ((workers s)[i := Processing a]) = alive (workers s)"
    using alive_update [OF Send(4), of "Processing a"] Send(5) by simp
  moreover have "Exited \<notin> set ((workers s)[i := Processing a])"
    using ex set_update_subset_insert [of "workers s" i "Processing a"] by auto
  moreover have "mset (in_flight t) = mset (in_flight s) + {#a#}"
    using in_flight_update [OF Send(4), of "Processing a"] Send(5,6)
    by (simp add: in_flight_def)
  moreover have "pending s = a # as" "pending t = as"
    using Send by (simp_all add: pending_def)
  ultimately show ?thesis
    using wgs ms st Send by (simp add: invariant_def)
next
  case (Serve i E a)
  note wgs = invariantD(1) [OF inv] and cl = invariantD(2) [OF inv] and ex = invariantD(3) [OF inv]
    and rt = invariantD(4) [OF inv] and ms = invariantD(5) [OF inv] and st = invariantD(6) [OF inv]
  have al: "alive ((workers s)[i := Receiving]) = alive (workers s)"
    using alive_update [OF Serve(2), of Receiving] Serve(3) by simp
  have ex': "\<not> closed s \<longrightarrow> Exited \<notin> set ((workers s)[i := Receiving])"
    using ex set_update_subset_insert [of "workers s" i Receiving] by auto
  have "mset (in_flight (s\<lparr> workers := (workers s)[i := Receiving] \<rparr>)) + {#a#} = mset (in_flight s)"
    using in_flight_update [OF Serve(2), of Receiving] Serve(3) by simp
  moreover have "in_flight t = in_flight (s\<lparr> workers := (workers s)[i := Receiving] \<rparr>)"
    using Serve(4) by (simp add: in_flight_def)
  ultimately have fl: "mset (in_flight t) + {#a#} = mset (in_flight s)"
    by simp
  have pe: "pending t = pending s"
    using Serve(4) by (simp add: pending_def)
  have ms': "mset rqs = mset (pending t) + mset (in_flight t) + mset (finished t)"
    using ms fl [symmetric] pe Serve(4) by simp
  have st': "\<exists>Es. length Es = count_list (finished t) b \<and> store t b = serve_all Es (h b)" for b
  proof -
    from st obtain Es where Es: "length Es = count_list (finished s) b" "store s b = serve_all Es (h b)"
      by blast
    show ?thesis
    proof (cases "b = a")
      case True
      with Es Serve(4) have "length (Es @ [E]) = count_list (finished t) b
          \<and> store t b = serve_all (Es @ [E]) (h b)"
        by (simp add: serve_all_snoc)
      then show ?thesis by blast
    next
      case False
      with Es Serve(4) have "length Es = count_list (finished t) b \<and> store t b = serve_all Es (h b)"
        by simp
      then show ?thesis by blast
    qed
  qed
  show ?thesis
    unfolding invariant_def
    using wgs cl ex' rt ms' st' al Serve(4) by simp
next
  case Close
  with inv show ?thesis
    by (simp add: invariant_def pending_def in_flight_def)
next
  case (Exit i)
  note wgs = invariantD(1) [OF inv] and cl = invariantD(2) [OF inv]
    and ms = invariantD(5) [OF inv] and st = invariantD(6) [OF inv]
  have "alive ((workers s)[i := Exited]) + 1 = alive (workers s)"
    using alive_update [OF Exit(2), of Exited] Exit(3) by simp
  then have al: "wg s - 1 = int (alive ((workers s)[i := Exited]))"
    using wgs by simp
  have "mset (in_flight (s\<lparr> workers := (workers s)[i := Exited] \<rparr>)) = mset (in_flight s)"
    using in_flight_update [OF Exit(2), of Exited] Exit(3) by simp
  moreover have "in_flight t = in_flight (s\<lparr> workers := (workers s)[i := Exited] \<rparr>)"
    using Exit(6) by (simp add: in_flight_def)
  ultimately have fl: "mset (in_flight t) = mset (in_flight s)"
    by simp
  have pe: "pending t = pending s"
    using Exit(6) by (simp add: pending_def)
  from invariantD(4) [OF inv] Exit(5) have nr: "caller s \<noteq> Returned"
    by auto
  show ?thesis
    unfolding invariant_def
    using al cl ms st fl pe nr Exit(4,6) by simp
next
  case Return
  with inv show ?thesis
    by (simp add: invariant_def pending_def in_flight_def)
qed

lemma alive_pos: "i < length ws \<Longrightarrow> ws ! i \<noteq> Exited \<Longrightarrow> 0 < alive ws"
  using alive_update [of i ws Exited] by simp

lemma alive_0: "alive ws = 0 \<longleftrightarrow> ws = replicate (length ws) Exited"
  by (induction ws) (simp_all add: alive_def)

lemma no_panic_fire:
  assumes inv: "invariant rqs h s"
  shows "fire x s \<noteq> Panic p"
proof (cases x)
  case (Send i)
  then show ?thesis
    using invariantD(2) [OF inv] by (simp split: caller.splits list.splits)
next
  case (Serve i E)
  then show ?thesis
    by (simp split: worker.splits)
next
  case Close
  then show ?thesis
    using invariantD(2) [OF inv] by (simp split: caller.splits list.splits)
next
  case (Exit i)
  show ?thesis
  proof (cases "i < length (workers s) \<and> workers s ! i = Receiving \<and> closed s")
    case True
    then have "0 < alive (workers s)"
      using alive_pos [of i "workers s"] by simp
    with invariantD(1) [OF inv] have "0 < wg s"
      by simp
    with Exit True show ?thesis
      by (simp add: wg_Add_def)
  next
    case False
    with Exit show ?thesis by auto
  qed
next
  case Return
  then show ?thesis by simp
qed

lemma length_workers_fire: "fire x s = Next t \<Longrightarrow> length (workers t) = length (workers s)"
  by (erule fire_NextE) simp_all

lemma invariant_exec:
  assumes "invariant rqs h s" and "exec sched s = Next t"
  shows "invariant rqs h t \<and> length (workers t) = length (workers s)"
  using assms
proof (induction sched arbitrary: s)
  case Nil
  then show ?case by simp
next
  case (Cons x sched)
  from Cons.prems(2) obtain u where u: "fire x s = Next u" and rest: "exec sched u = Next t"
    by (auto split: outcome.splits)
  from invariant_fire [OF Cons.prems(1) u] have "invariant rqs h u" .
  from Cons.IH [OF this rest] length_workers_fire [OF u] show ?case
    by simp
qed


lemma in_flight_replicate_Receiving:
  "workers s = replicate k Receiving \<Longrightarrow> in_flight s = []"
  by (simp add: in_flight_def)

lemma in_flight_replicate_Exited:
  "workers s = replicate k Exited \<Longrightarrow> in_flight s = []"
  by (simp add: in_flight_def)

lemma invariant_submit:
  assumes "NewPool n = Inr p"
  shows "invariant rqs h (submit p rqs h)"
proof -
  note p = NewPool_Inr [OF assms]
  have "alive (replicate (unat n) Receiving) = unat n"
    by (simp add: alive_def)
  moreover have "in_flight (submit p rqs h) = []"
    by (rule in_flight_replicate_Receiving [of _ "unat n"]) (simp add: submit_def p)
  moreover have "\<exists>Es. length Es = 0 \<and> h a = serve_all Es (h a)" for a
    by (simp add: serve_all_def)
  ultimately show ?thesis
    by (simp add: invariant_def submit_def p pending_def)
qed



lemma done_calls_serve_all: "done_calls (serve_all Es r) = done_calls r + length Es"
  by (induction Es rule: rev_induct) (simp_all add: serve_all_snoc done_calls_serve, simp add: serve_all_def)

lemma invariant_Returned:
  assumes inv: "invariant rqs h s" and ret: "caller s = Returned"
  shows "closed s" and "wg s = 0" and "workers s = replicate (length (workers s)) Exited"
    and "pending s = []" and "in_flight s = []" and "mset (finished s) = mset rqs"
    and "\<forall>a. \<exists>Es. length Es = count_list rqs a \<and> store s a = serve_all Es (h a)"
    and "\<forall>a. done_calls (store s a) = done_calls (h a) + count_list rqs a"
    and "\<forall>x. fire x s = Blocked"
proof -
  show "closed s"
    using invariantD(2) [OF inv] ret by simp
  show wg0: "wg s = 0"
    using invariantD(4) [OF inv] ret by simp
  with invariantD(1) [OF inv] have "alive (workers s) = 0"
    by simp
  then show ws: "workers s = replicate (length (workers s)) Exited"
    by (simp add: alive_0)
  show pe: "pending s = []"
    using ret by (simp add: pending_def)
  show fl: "in_flight s = []"
    by (rule in_flight_replicate_Exited [OF ws])
  show fin: "mset (finished s) = mset rqs"
    using invariantD(5) [OF inv] pe fl by simp
  then have cnt: "count_list (finished s) a = count_list rqs a" for a
    by (metis count_mset)
  with invariantD(6) [OF inv]
  show st: "\<forall>a. \<exists>Es. length Es = count_list rqs a \<and> store s a = serve_all Es (h a)"
    by simp
  show "\<forall>a. done_calls (store s a) = done_calls (h a) + count_list rqs a"
  proof
    fix a
    from st obtain Es where "length Es = count_list rqs a" "store s a = serve_all Es (h a)"
      by blast
    then show "done_calls (store s a) = done_calls (h a) + count_list rqs a"
      by (simp add: done_calls_serve_all)
  qed
  show "\<forall>x. fire x s = Blocked"
  proof
    fix x
    have nth: "i < length (workers s) \<Longrightarrow> workers s ! i = Exited" for i
      by (subst ws) simp
    show "fire x s = Blocked"
      by (cases x) (auto simp: ret nth)
  qed
qed


section \<open>The entry points\<close>

lemma clamp_eq_max: "(if n < 1 then 1 else n) = max n (1 :: 64 word)"
proof (cases "n = 0")
  case True
  then show ?thesis by simp
next
  case False
  then have "0 < n"
    by (simp add: word_neq_0_conv)
  from inc_le [OF this] have "1 \<le> n"
    by simp
  with False show ?thesis
    by (simp add: max_def)
qed

lemma DoN_Inr:
  assumes "DoN n rqs h = Inr s0"
  shows "s0 = \<lparr> closed = False, workers = replicate (unat (max n 1)) Receiving,
                wg = int (unat (max n 1)), caller = Sending rqs, store = h, finished = [] \<rparr>
         \<and> invariant rqs h s0"
proof -
  from assms obtain p where p: "NewPool (max n 1) = Inr p" and s0: "s0 = submit p rqs h"
    unfolding DoN_def clamp_eq_max Let_def by (auto split: sum.splits)
  from NewPool_Inr [OF p] s0 invariant_submit [OF p, of rqs h] show ?thesis
    by (simp add: submit_def)
qed

lemma DoN_creates_pool:
  assumes "0 \<le> sint n"
  shows "DoN n rqs h =
           Inr \<lparr> closed = False, workers = replicate (unat (max n 1)) Receiving,
                 wg = int (unat (max n 1)), caller = Sending rqs, store = h, finished = [] \<rparr>"
proof -
  have "0 \<le> sint (max n 1)"
    using assms by (simp add: max_def)
  from NewPool_ok [OF this] show ?thesis
    unfolding DoN_def clamp_eq_max Let_def by (simp add: submit_def)
qed

lemma sint_word_of_nat:
  assumes "k < 2 ^ 63"
  shows "sint (word_of_nat k :: 64 word) = int k" and "unat (word_of_nat k :: 64 word) = k"
proof -
  from assms have lt: "k < 2 ^ LENGTH(64)"
    by simp
  then show u: "unat (word_of_nat k :: 64 word) = k"
    by (simp add: unat_of_nat)
  then have "uint (word_of_nat k :: 64 word) = int k"
    by (metis uint_nat)
  moreover have "int k < 2 ^ 63"
    using assms by (metis of_nat_less_iff of_nat_numeral of_nat_power)
  ultimately show "sint (word_of_nat k :: 64 word) = int k"
    by (simp add: sint_uint signed_take_bit_int_eq_self)
qed

lemma Do_Inr:
  assumes "length rqs < 2 ^ 63"
  shows "Do rqs h = Inr \<lparr> closed = False, workers = replicate (length rqs) Receiving,
                wg = int (length rqs), caller = Sending rqs, store = h, finished = [] \<rparr>"
proof -
  have "0 \<le> sint (word_of_nat (length rqs) :: 64 word)"
    using sint_word_of_nat(1) [OF assms] by simp
  from NewPool_ok [OF this] show ?thesis
    by (simp add: Do_def submit_def sint_word_of_nat(2) [OF assms])
qed

lemma replicate_2: "replicate 2 x = [x, x]"
  by (simp add: numeral_2_eq_2)

lemma invariant_wg_0:
  assumes "invariant rqs h s" and "wg s = 0"
  shows "workers s = replicate (length (workers s)) Exited"
proof -
  from invariantD(1) [OF assms(1)] assms(2) have "alive (workers s) = 0"
    by simp
  then show ?thesis
    by (simp add: alive_0)
qed

lemma fire_Send_in_flight:
  assumes "fire (Send i) s = Next t"
  shows "length (in_flight t) = Suc (length (in_flight s))"
  using assms
proof (cases rule: fire_NextE)
  case (Send j a as)
  have "mset (in_flight t) = mset (in_flight s) + {#a#}"
    using in_flight_update [OF Send(4), of "Processing a"] Send(5,6)
    by (simp add: in_flight_def)
  then have "size (mset (in_flight t)) = size (mset (in_flight s) + {#a#})"
    by simp
  then show ?thesis
    by simp
qed simp_all

lemmas pool_eval =
  submit_def wg_Add_def in_flight_def pending_def

text \<open>
  Claim C7 (bounded concurrency), as the code has it. In every state that an
  execution of \<open>DoN(n, rqs...)\<close> reaches, the pool has \<open>max(n, 1)\<close> workers and
  at most that many tasks are being fetched and decoded; that is at most \<open>n\<close> when
  \<open>n\<close> is at least one. A send is blocked unless fewer tasks than that are in
  flight. The bound is \<open>max(n, 1)\<close> and not \<open>n\<close>: \<open>DoN\<close> raises a count of
  zero to one, and with it one task is in flight.
\<close>

theorem in_flight_bounded:
  assumes "DoN n rqs h = Inr s0" and "exec sched s0 = Next s"
  shows "length (workers s) = unat (max n 1)
       \<and> length (in_flight s) \<le> unat (max n 1)
       \<and> (1 \<le> n \<longrightarrow> length (in_flight s) \<le> unat n)
       \<and> (\<forall>i. fire (Send i) s = Blocked \<or> length (in_flight s) < unat (max n 1))"
proof -
  note init = DoN_Inr [OF assms(1)]
  then have "length (workers s0) = unat (max n 1)"
    by simp
  with invariant_exec [OF conjunct2 [OF init] assms(2)]
  have inv: "invariant rqs h s" and len: "length (workers s) = unat (max n 1)"
    by simp_all
  with length_in_flight [of s] have bound: "length (in_flight s) \<le> unat (max n 1)"
    by simp
  have "1 \<le> n \<longrightarrow> max n 1 = n"
    by (simp add: max_def)
  with bound have atleast1: "1 \<le> n \<longrightarrow> length (in_flight s) \<le> unat n"
    by auto
  have handoff: "fire (Send i) s = Blocked \<or> length (in_flight s) < unat (max n 1)" for i
  proof (cases "fire (Send i) s")
    case Blocked
    then show ?thesis by simp
  next
    case (Panic q)
    with no_panic_fire [OF inv] show ?thesis by blast
  next
    case (Next t)
    from length_workers_fire [OF Next] len length_in_flight [of t]
    have "length (in_flight t) \<le> unat (max n 1)"
      by simp
    with fire_Send_in_flight [OF Next] show ?thesis
      by simp
  qed
  from len bound atleast1 handoff show ?thesis
    by blast
qed


theorem in_flight_bounded_witness:
  "DoN 2 [0, 1, 2] example_store =
     Inr \<lparr> closed = False, workers = [Receiving, Receiving], wg = 2,
           caller = Sending [0, 1, 2], store = example_store, finished = [] \<rparr>
   \<and> exec [Send 1, Send 0]
        \<lparr> closed = False, workers = [Receiving, Receiving], wg = 2,
          caller = Sending [0, 1, 2], store = example_store, finished = [] \<rparr>
     = Next \<lparr> closed = False, workers = [Processing 1, Processing 0], wg = 2,
              caller = Sending [2], store = example_store, finished = [] \<rparr>
   \<and> fire (Send 0)
        \<lparr> closed = False, workers = [Processing 1, Processing 0], wg = 2,
          caller = Sending [2], store = example_store, finished = [] \<rparr> = Blocked
   \<and> fire (Send 1)
        \<lparr> closed = False, workers = [Processing 1, Processing 0], wg = 2,
          caller = Sending [2], store = example_store, finished = [] \<rparr> = Blocked
   \<and> length (in_flight \<lparr> closed = False, workers = [Processing 1, Processing 0], wg = 2,
              caller = Sending [2], store = example_store, finished = [] \<rparr>) \<le> unat (2 :: 64 word)"
proof -
  have "0 \<le> sint (2 :: 64 word)"
    by simp
  from NewPool_ok [OF this]
  have d: "DoN 2 [0, 1, 2] example_store =
     Inr \<lparr> closed = False, workers = [Receiving, Receiving], wg = 2,
           caller = Sending [0, 1, 2], store = example_store, finished = [] \<rparr>"
    by (simp add: DoN_def submit_def replicate_2)
  have e: "exec [Send 1, Send 0]
        \<lparr> closed = False, workers = [Receiving, Receiving], wg = 2,
          caller = Sending [0, 1, 2], store = example_store, finished = [] \<rparr>
     = Next \<lparr> closed = False, workers = [Processing 1, Processing 0], wg = 2,
              caller = Sending [2], store = example_store, finished = [] \<rparr>"
    by simp
  have "(1 :: 64 word) \<le> 2"
    by simp
  with in_flight_bounded [OF d e] d e show ?thesis
    by simp
qed

text \<open>
  The bound \<open>n\<close> of claim C7 fails for \<open>n = 0\<close>: \<open>DoN(0, t)\<close> starts one
  worker, and after the first hand-off one task is in flight, although the task list
  is longer than \<open>n\<close>.
\<close>

theorem in_flight_bounded_counterexample:
  "DoN 0 [0] example_store =
     Inr \<lparr> closed = False, workers = [Receiving], wg = 1,
           caller = Sending [0], store = example_store, finished = [] \<rparr>
   \<and> exec [Send 0]
        \<lparr> closed = False, workers = [Receiving], wg = 1,
          caller = Sending [0], store = example_store, finished = [] \<rparr>
     = Next \<lparr> closed = False, workers = [Processing 0], wg = 1,
              caller = Sending [], store = example_store, finished = [] \<rparr>
   \<and> in_flight \<lparr> closed = False, workers = [Processing 0], wg = 1,
              caller = Sending [], store = example_store, finished = [] \<rparr> = [0]
   \<and> unat (0 :: 64 word) < length [0 :: nat]
   \<and> \<not> length [0 :: nat] \<le> unat (0 :: 64 word)"
proof -
  have "0 \<le> sint (1 :: 64 word)"
    by simp
  from NewPool_ok [OF this]
  have "DoN 0 [0] example_store =
     Inr \<lparr> closed = False, workers = [Receiving], wg = 1,
           caller = Sending [0], store = example_store, finished = [] \<rparr>"
    by (simp add: DoN_def submit_def)
  then show ?thesis
    by (simp add: in_flight_def)
qed

text \<open>
  Claim C8 (pool sizing of \<open>DoN\<close>). For the largest \<open>uint\<close> the conversion
  \<open>int(n)\<close> in \<open>NewPool\<close> is \<open>-1\<close>, and \<open>p.wg.Add(-1)\<close> on the fresh wait
  group panics: no pool is created, whatever the tasks are. For every \<open>n\<close> whose
  conversion is not negative the pool has \<open>max(n, 1)\<close> workers and the caller
  starts to send the tasks, by \<open>DoN_creates_pool\<close>.
\<close>

theorem DoN_max_uint_panics:
  "DoN (- 1) rqs h = Inl NegativeWaitGroupCounter"
proof -
  have "sint (- 1 :: 64 word) < 0"
    by simp
  from NewPool_panics [OF this] show ?thesis
    by (simp add: DoN_def)
qed

theorem DoN_max_uint_panics_witness:
  "DoN (- 1) [0, 1] example_store = Inl NegativeWaitGroupCounter"
  using DoN_max_uint_panics [of "[0, 1]" example_store] by simp

text \<open>
  Claim C3 (drain guarantee). Take a pool of \<open>n\<close> workers, the tasks \<open>rqs\<close>
  passed to \<open>p.Do\<close>, and any state that an execution of \<open>p.Do(rqs...); p.Stop()\<close>
  reaches. While the caller waits in \<open>Stop\<close> the channel is closed, and \<open>Wait\<close>
  can return only when the counter is zero and every worker has exited. Once
  \<open>Stop\<close> has returned, no task is left with the caller or with a worker; the
  finished tasks are the submitted ones; every task has had \<open>Done\<close> applied once
  for each time it was submitted, and its state is the result of that many
  iterations; and no action is possible any more, so the state the caller reads is
  final.
\<close>

theorem Stop_drains:
  assumes "NewPool n = Inr p" and "exec sched (submit p rqs h) = Next s"
  shows "(caller s = Waiting \<longrightarrow> closed s)
       \<and> (fire Return s \<noteq> Blocked \<longrightarrow>
            closed s \<and> wg s = 0 \<and> workers s = replicate (unat n) Exited)
       \<and> (caller s = Returned \<longrightarrow>
            closed s \<and> wg s = 0 \<and> workers s = replicate (unat n) Exited
            \<and> pending s = [] \<and> in_flight s = [] \<and> mset (finished s) = mset rqs
            \<and> (\<forall>a. done_calls (store s a) = done_calls (h a) + count_list rqs a)
            \<and> (\<forall>a. \<exists>Es. length Es = count_list rqs a \<and> store s a = serve_all Es (h a))
            \<and> (\<forall>x. fire x s = Blocked))"
proof -
  from invariant_exec [OF invariant_submit [OF assms(1)] assms(2)]
  have inv: "invariant rqs h s" and "length (workers s) = length (workers (submit p rqs h))"
    by simp_all
  then have len: "length (workers s) = unat n"
    using NewPool_Inr [OF assms(1)] by (simp add: submit_def)
  have waiting: "caller s = Waiting \<longrightarrow> closed s"
    using invariantD(2) [OF inv] by simp
  have barrier: "closed s \<and> wg s = 0 \<and> workers s = replicate (unat n) Exited"
    if "fire Return s \<noteq> Blocked"
  proof -
    from that have "caller s = Waiting" and "wg s = 0"
      by (simp_all split: if_splits)
    with waiting invariant_wg_0 [OF inv] len show ?thesis
      by simp
  qed
  have drained: "closed s \<and> wg s = 0 \<and> workers s = replicate (unat n) Exited
            \<and> pending s = [] \<and> in_flight s = [] \<and> mset (finished s) = mset rqs
            \<and> (\<forall>a. done_calls (store s a) = done_calls (h a) + count_list rqs a)
            \<and> (\<forall>a. \<exists>Es. length Es = count_list rqs a \<and> store s a = serve_all Es (h a))
            \<and> (\<forall>x. fire x s = Blocked)"
    if "caller s = Returned"
  proof -
    note fin = invariant_Returned [OF inv that]
    from fin(3) len have "workers s = replicate (unat n) Exited"
      by simp
    with fin show ?thesis
      by blast
  qed
  from waiting barrier drained show ?thesis
    by blast
qed

theorem Stop_drains_witness:
  "\<exists>p s. NewPool 2 = Inr p
     \<and> exec [Send 1, Send 0, Serve 0 example_env, Send 0, Close, Serve 1 example_env, Exit 1,
             Serve 0 failing_close_env, Exit 0, Return]
          (submit p [0, 1, 2] example_store) = Next s
     \<and> caller s = Returned \<and> closed s \<and> workers s = [Exited, Exited] \<and> wg s = 0
     \<and> finished s = [1, 0, 2]
     \<and> done_calls (store s 0) = 1 \<and> done_calls (store s 1) = 1 \<and> done_calls (store s 2) = 1
     \<and> done_calls (store s 3) = 0
     \<and> fire Return s = Blocked"
proof -
  have "0 \<le> sint (2 :: 64 word)"
    by simp
  from NewPool_ok [OF this]
  have p: "NewPool 2 = Inr \<lparr> closed = False, workers = [Receiving, Receiving], wg = 2 \<rparr>"
    by (simp add: replicate_2)
  have "\<exists>s. exec [Send 1, Send 0, Serve 0 example_env, Send 0, Close, Serve 1 example_env, Exit 1,
             Serve 0 failing_close_env, Exit 0, Return]
          (submit \<lparr> closed = False, workers = [Receiving, Receiving], wg = 2 \<rparr>
             [0, 1, 2] example_store) = Next s
     \<and> caller s = Returned \<and> finished s = [1, 0, 2]"
    by (simp add: pool_eval)
  then obtain s where e: "exec [Send 1, Send 0, Serve 0 example_env, Send 0, Close,
             Serve 1 example_env, Exit 1, Serve 0 failing_close_env, Exit 0, Return]
          (submit \<lparr> closed = False, workers = [Receiving, Receiving], wg = 2 \<rparr>
             [0, 1, 2] example_store) = Next s"
    and r: "caller s = Returned" and f: "finished s = [1, 0, 2]"
    by blast
  have d: "done_calls (example_store a) = 0" for a
    by (simp add: example_defs)
  from Stop_drains [OF p e] p e r f d show ?thesis
    by (simp add: replicate_2)
qed



text \<open>
  Claim C10 (empty batch). \<open>Do()\<close> creates a pool without workers and a zero
  counter. The only action possible then is the close of the channel, the only one
  possible after it is the return of \<open>Wait\<close>, and with it \<open>Stop\<close> has returned:
  nothing blocks, nothing panics, and the store is untouched.
\<close>

theorem Do_empty_returns:
  "Do [] h = Inr \<lparr> closed = False, workers = [], wg = 0,
                    caller = Sending [], store = h, finished = [] \<rparr>
   \<and> (\<forall>x. fire x \<lparr> closed = False, workers = [], wg = 0,
                    caller = Sending [], store = h, finished = [] \<rparr>
          = (if x = Close
             then Next \<lparr> closed = True, workers = [], wg = 0,
                         caller = Waiting, store = h, finished = [] \<rparr>
             else Blocked))
   \<and> (\<forall>x. fire x \<lparr> closed = True, workers = [], wg = 0,
                    caller = Waiting, store = h, finished = [] \<rparr>
          = (if x = Return
             then Next \<lparr> closed = True, workers = [], wg = 0,
                         caller = Returned, store = h, finished = [] \<rparr>
             else Blocked))
   \<and> exec [Close, Return] \<lparr> closed = False, workers = [], wg = 0,
                    caller = Sending [], store = h, finished = [] \<rparr>
       = Next \<lparr> closed = True, workers = [], wg = 0,
                 caller = Returned, store = h, finished = [] \<rparr>"
proof -
  have "length ([] :: nat list) < 2 ^ 63"
    by simp
  from Do_Inr [OF this, of h]
  have start: "Do [] h = Inr \<lparr> closed = False, workers = [], wg = 0,
                    caller = Sending [], store = h, finished = [] \<rparr>"
    by simp
  have a: "fire x \<lparr> closed = False, workers = [], wg = 0,
                    caller = Sending [], store = h, finished = [] \<rparr>
          = (if x = Close
             then Next \<lparr> closed = True, workers = [], wg = 0,
                         caller = Waiting, store = h, finished = [] \<rparr>
             else Blocked)" for x :: "'a action"
    by (cases x) simp_all
  have b: "fire x \<lparr> closed = True, workers = [], wg = 0,
                    caller = Waiting, store = h, finished = [] \<rparr>
          = (if x = Return
             then Next \<lparr> closed = True, workers = [], wg = 0,
                         caller = Returned, store = h, finished = [] \<rparr>
             else Blocked)" for x :: "'a action"
    by (cases x) simp_all
  show ?thesis
    by (intro conjI allI start a b) simp
qed

theorem Do_empty_returns_witness:
  "Do [] example_store = Inr \<lparr> closed = False, workers = [], wg = 0,
                    caller = Sending [], store = example_store, finished = [] \<rparr>
   \<and> fire Return \<lparr> closed = False, workers = [], wg = 0,
                    caller = Sending [], store = example_store, finished = [] \<rparr> = Blocked
   \<and> fire Close \<lparr> closed = False, workers = [], wg = 0,
                    caller = Sending [], store = example_store, finished = [] \<rparr>
       = Next \<lparr> closed = True, workers = [], wg = 0,
                 caller = Waiting, store = example_store, finished = [] \<rparr>
   \<and> fire Return \<lparr> closed = True, workers = [], wg = 0,
                    caller = Waiting, store = example_store, finished = [] \<rparr>
       = Next \<lparr> closed = True, workers = [], wg = 0,
                 caller = Returned, store = example_store, finished = [] \<rparr>"
  using Do_empty_returns [of example_store] by simp

end
